theory Spec2Isabelle
  imports Main
begin

section \<open>Data model\<close>

text \<open>
  The add-on's configuration \<open>self.data\<close> is a dictionary with the optional keys
  \<open>output_format\<close>, \<open>start_page\<close> and \<open>end_page\<close>. A key that is absent is \<open>None\<close>
  here, which is also what \<open>self.data.get(key)\<close> returns for it in Python.
\<close>

record addon_data =
  output_format :: "string option"
  start_page :: "int option"
  end_page :: "int option"

text \<open>
  The three settings as the add-on reads them: \<open>self.data.get("output_format", "json")\<close>,
  \<open>self.data.get("start_page", 1)\<close> and, in \<open>main\<close>, \<open>self.data.get("end_page", 1)\<close>.
\<close>

definition get_output_format :: "addon_data \<Rightarrow> string" where
  "get_output_format d = (case output_format d of None \<Rightarrow> ''json'' | Some f \<Rightarrow> f)"

definition get_start_page :: "addon_data \<Rightarrow> int" where
  "get_start_page d = (case start_page d of None \<Rightarrow> 1 | Some s \<Rightarrow> s)"

definition get_end_page :: "addon_data \<Rightarrow> int" where
  "get_end_page d = (case end_page d of None \<Rightarrow> 1 | Some e \<Rightarrow> e)"

text \<open>A document of the host platform: only \<open>id\<close> and \<open>page_count\<close> are read.\<close>

record document =
  doc_id :: int
  page_count :: int

text \<open>
  The exceptions that leave the add-on's methods: the \<open>TypeError\<close> of comparing
  \<open>None\<close> with an integer, and the \<open>SystemExit\<close> of \<open>sys.exit(0)\<close>.
\<close>

datatype exn = TypeError | SystemExit int

text \<open>
  What the add-on does to the outside, in the order in which it does it: the messages it
  shows, what it prints, the amounts it passes to \<open>charge_credits\<close>, and the pages
  (document id, page number) it submits to the analyzer. The files it writes are kept by
  name with their text.
\<close>

datatype event =
    Set_message string
  | Print int
  | Charge_credits int
  | Analyze int int

record world =
  trace :: "event list"
  files :: "string \<rightharpoonup> string"

definition emit :: "event \<Rightarrow> world \<Rightarrow> world" where
  "emit e w = w\<lparr>trace := trace w @ [e]\<rparr>"

definition set_message :: "string \<Rightarrow> world \<Rightarrow> world" where
  "set_message msg w = emit (Set_message msg) w"

section \<open>calculate_cost\<close>

text \<open>
  The loop of \<open>calculate_cost\<close> over the documents, with the running
  \<open>total_num_pages\<close>. \<open>start_page\<close> defaults to 1; \<open>end_page\<close> is read with
  \<open>self.data.get("end_page")\<close>, without a default:
  \<open>end_page <= doc.page_count\<close> raises when \<open>end_page\<close> is \<open>None\<close>. The local
  variables \<open>start_page\<close> and \<open>end_page\<close> are \<open>sp\<close> and \<open>ep\<close> here and below, the
  record's fields having their names.
\<close>

fun calculate_cost_loop :: "addon_data \<Rightarrow> document list \<Rightarrow> int \<Rightarrow> exn + int" where
  "calculate_cost_loop d [] total_num_pages = Inr total_num_pages"
| "calculate_cost_loop d (doc # documents) total_num_pages =
     (let sp = get_start_page d in
      case end_page d of
        None \<Rightarrow> Inl TypeError
      | Some ep \<Rightarrow>
          (let last_page = (if ep \<le> page_count doc then ep else page_count doc);
               pages_to_analyze = last_page - sp + 1
           in calculate_cost_loop d documents (total_num_pages + pages_to_analyze)))"

text \<open>
  \<open>calculate_cost\<close>: the loop, then \<open>cost = total_num_pages * 7\<close>, printed and
  returned.
\<close>

definition calculate_cost :: "addon_data \<Rightarrow> document list \<Rightarrow> world \<Rightarrow> (exn + int) \<times> world" where
  "calculate_cost d documents w =
     (case calculate_cost_loop d documents 0 of
        Inl e \<Rightarrow> (Inl e, w)
      | Inr total_num_pages \<Rightarrow>
          (let cost = total_num_pages * 7 in (Inr cost, emit (Print cost) w)))"

section \<open>The host platform and validate\<close>

text \<open>
  \<open>charge_credits\<close> either returns, or raises one of the two exceptions that
  \<open>validate\<close> catches.
\<close>

datatype charge_outcome = Charged | Raises_ValueError | Raises_APIError

text \<open>
  The analyzer's result objects as the add-on reads them: \<open>result.tables\<close>, each table
  with \<open>page_number\<close> and \<open>cells\<close>, each cell with \<open>row_index\<close>, \<open>column_index\<close> and
  \<open>text\<close>.
\<close>

record cell =
  cell_row_index :: int
  cell_column_index :: int
  cell_text :: string

record table =
  table_page_number :: int
  table_cells :: "cell list"

text \<open>
  The add-on object: its configuration and the collaborators it calls. The host platform
  gives \<open>get_document_count()\<close>, \<open>org_id\<close>, \<open>get_documents()\<close> and the behaviour of
  \<open>charge_credits\<close>; \<open>analyze\<close> is \<open>result.tables\<close> of the analysis of one page image
  of a document, a collaborator that is taken to return.
\<close>

record addon =
  data :: addon_data
  get_document_count :: "int option"
  org_id :: "int option"
  get_documents :: "document list"
  charge_credits :: "int \<Rightarrow> charge_outcome"
  analyze :: "document \<Rightarrow> int \<Rightarrow> table list"

text \<open>\<open>not self.org_id\<close>: \<open>None\<close> and 0 are false in Python.\<close>

definition not_org_id :: "addon \<Rightarrow> bool" where
  "not_org_id a = (case org_id a of None \<Rightarrow> True | Some n \<Rightarrow> n = 0)"

definition validate :: "addon \<Rightarrow> world \<Rightarrow> (exn + bool) \<times> world" where
  "validate a w =
     (if get_document_count a = None then
        (Inl (SystemExit 0),
         set_message (''It looks like no documents were selected. Search for some or '' @
                      ''select them and run again.'') w)
      else if not_org_id a then
        (Inl (SystemExit 0), set_message ''No organization to charge.'' w)
      else
        (case calculate_cost (data a) (get_documents a) w of
           (Inl e, w1) \<Rightarrow> (Inl e, w1)
         | (Inr ai_credit_cost, w1) \<Rightarrow>
             (let w2 = emit (Charge_credits ai_credit_cost) w1 in
              case charge_credits a ai_credit_cost of
                Charged \<Rightarrow> (Inr True, w2)
              | Raises_ValueError \<Rightarrow> (Inr False, w2)
              | Raises_APIError \<Rightarrow> (Inr False, w2))))"

section \<open>Table data\<close>

text \<open>
  The dictionaries that \<open>get_table_data\<close> builds: \<open>table_info\<close> with the keys
  \<open>page_number\<close> and \<open>cells\<close>, \<open>cell_info\<close> with \<open>row_index\<close>, \<open>column_index\<close>
  and \<open>content\<close>.
\<close>

record cell_info =
  row_index :: int
  column_index :: int
  content :: string

record table_info =
  page_number :: int
  cells :: "cell_info list"

text \<open>The inner loop of \<open>get_table_data\<close>, appending to \<open>table_info["cells"]\<close>.\<close>

fun get_cells :: "cell list \<Rightarrow> cell_info list \<Rightarrow> cell_info list" where
  "get_cells [] acc = acc"
| "get_cells (c # cs) acc =
     get_cells cs (acc @ [\<lparr>row_index = cell_row_index c,
                            column_index = cell_column_index c,
                            content = cell_text c\<rparr>])"

text \<open>The outer loop, appending to \<open>table_data\<close>.\<close>

fun get_table_data_loop :: "table list \<Rightarrow> table_info list \<Rightarrow> table_info list" where
  "get_table_data_loop [] table_data = table_data"
| "get_table_data_loop (t # ts) table_data =
     get_table_data_loop ts
       (table_data @ [\<lparr>page_number = table_page_number t, cells = get_cells (table_cells t) []\<rparr>])"

definition get_table_data :: "table list \<Rightarrow> table_info list" where
  "get_table_data tables = get_table_data_loop tables []"

text \<open>
  A CSV row is a list of fields; \<open>convert_to_csv\<close> makes rows of three integers and a
  string, the header row is four strings.
\<close>

datatype field = FInt int | FStr string

fun convert_cells :: "int \<Rightarrow> cell_info list \<Rightarrow> field list list \<Rightarrow> field list list" where
  "convert_cells pn [] csv_data = csv_data"
| "convert_cells pn (c # cs) csv_data =
     (let csv_row = [FInt pn, FInt (row_index c), FInt (column_index c), FStr (content c)]
      in convert_cells pn cs (csv_data @ [csv_row]))"

fun convert_tables :: "table_info list \<Rightarrow> field list list \<Rightarrow> field list list" where
  "convert_tables [] csv_data = csv_data"
| "convert_tables (table_info # table_data) csv_data =
     convert_tables table_data (convert_cells (page_number table_info) (cells table_info) csv_data)"

definition convert_to_csv :: "table_info list \<Rightarrow> field list list" where
  "convert_to_csv table_data = convert_tables table_data []"

section \<open>Text written to files\<close>

text \<open>
  \<open>str(n)\<close> of an integer: its decimal digits, after a minus sign when negative.
  \<open>digit_char\<close> gives the hexadecimal digits as well, for the escapes of JSON strings.
\<close>

definition digit_char :: "nat \<Rightarrow> char" where
  "digit_char n = ''0123456789abcdef'' ! n"

fun str_nat :: "nat \<Rightarrow> string" where
  "str_nat n = (if n < 10 then [digit_char n] else str_nat (n div 10) @ [digit_char (n mod 10)])"

declare str_nat.simps [simp del]

definition str_int :: "int \<Rightarrow> string" where
  "str_int i = (if i < 0 then CHR ''-'' # str_nat (nat (- i)) else str_nat (nat i))"

subsection \<open>csv.writer, default dialect\<close>

text \<open>
  \<open>csv.writer(csv_file)\<close> writes a row as its fields separated by commas and ended by
  \<open>\r\n\<close>. An integer is written as \<open>str\<close> gives it; a string is put between double
  quotes, with each double quote doubled, when it holds a comma, a double quote, a
  carriage return or a line feed. A row of one empty string is written as two quotes.
\<close>

definition dquote :: char where
  "dquote = CHR 0x22"

definition csv_special :: "char \<Rightarrow> bool" where
  "csv_special c = (c = CHR '','' \<or> c = dquote \<or> c = CHR 0x0D \<or> c = CHR 0x0A)"

definition csv_quoted :: "string \<Rightarrow> string" where
  "csv_quoted s =
     (if list_ex csv_special s
      then dquote # concat (map (\<lambda>c. if c = dquote then [dquote, dquote] else [c]) s) @ [dquote]
      else s)"

fun csv_field :: "field \<Rightarrow> string" where
  "csv_field (FInt i) = str_int i"
| "csv_field (FStr s) = csv_quoted s"

fun join_fields :: "string list \<Rightarrow> string" where
  "join_fields [] = []"
| "join_fields [x] = x"
| "join_fields (x # y # ys) = x @ CHR '','' # join_fields (y # ys)"

definition writerow :: "field list \<Rightarrow> string" where
  "writerow row =
     (if row = [FStr []] then [dquote, dquote] else join_fields (map csv_field row))
     @ [CHR 0x0D, CHR 0x0A]"

definition writerows :: "field list list \<Rightarrow> string" where
  "writerows rows = concat (map writerow rows)"

definition csv_header :: "field list" where
  "csv_header = [FStr ''Page Number'', FStr ''Row Index'', FStr ''Column Index'', FStr ''Content'']"

subsection \<open>json.dumps with indent=4\<close>

text \<open>
  The values of JSON, as Python has them, floating-point numbers apart: \<open>None\<close>,
  booleans, integers, strings, lists, and dictionaries with string keys, in insertion
  order.
\<close>

datatype json =
    JNull
  | JBool bool
  | JInt int
  | JStr string
  | JList "json list"
  | JDict "(string \<times> json) list"

text \<open>
  The table data as the Python value it is: a list of dictionaries, with the keys in the
  order in which \<open>get_table_data\<close> writes them.
\<close>

definition cell_info_json :: "cell_info \<Rightarrow> json" where
  "cell_info_json c =
     JDict [(''row_index'', JInt (row_index c)),
            (''column_index'', JInt (column_index c)),
            (''content'', JStr (content c))]"

definition table_info_json :: "table_info \<Rightarrow> json" where
  "table_info_json t =
     JDict [(''page_number'', JInt (page_number t)),
            (''cells'', JList (map cell_info_json (cells t)))]"

definition json_of_table_data :: "table_info list \<Rightarrow> json" where
  "json_of_table_data table_data = JList (map table_info_json table_data)"

text \<open>
  Strings are written with \<open>ensure_ascii\<close>: between double quotes, a backslash before
  a double quote and a backslash, the short escapes for backspace, form feed, line feed,
  carriage return and tab, the printable ASCII characters as they are, and every other
  character as \<open>\u\<close> and four lower-case hexadecimal digits.
\<close>

definition backslash :: char where
  "backslash = CHR 0x5C"

definition hex4 :: "nat \<Rightarrow> string" where
  "hex4 n = [digit_char (n div 4096 mod 16), digit_char (n div 256 mod 16),
             digit_char (n div 16 mod 16), digit_char (n mod 16)]"

definition escape_char :: "char \<Rightarrow> string" where
  "escape_char c =
     (if c = backslash then [backslash, backslash]
      else if c = dquote then [backslash, dquote]
      else if c = CHR 0x08 then [backslash, CHR ''b'']
      else if c = CHR 0x0C then [backslash, CHR ''f'']
      else if c = CHR 0x0A then [backslash, CHR ''n'']
      else if c = CHR 0x0D then [backslash, CHR ''r'']
      else if c = CHR 0x09 then [backslash, CHR ''t'']
      else if 32 \<le> (of_char c :: nat) \<and> (of_char c :: nat) \<le> 126 then [c]
      else backslash # CHR ''u'' # hex4 (of_char c))"

definition encode_basestring_ascii :: "string \<Rightarrow> string" where
  "encode_basestring_ascii s = dquote # concat (map escape_char s) @ [dquote]"

text \<open>
  With an indent, an empty list is \<open>[]\<close> and an empty dictionary \<open>{}\<close>; otherwise each
  item is on a line of its own, indented by four spaces per level, items separated by a
  comma at the end of the line, a key and its value by a colon and a space.
\<close>

definition newline_indent :: "nat \<Rightarrow> string" where
  "newline_indent level = CHR 0x0A # replicate (4 * level) CHR '' ''"

fun iterencode :: "json \<Rightarrow> nat \<Rightarrow> string"
  and iterencode_list :: "json list \<Rightarrow> nat \<Rightarrow> string"
  and iterencode_dict :: "(string \<times> json) list \<Rightarrow> nat \<Rightarrow> string" where
  "iterencode JNull level = ''null''"
| "iterencode (JBool b) level = (if b then ''true'' else ''false'')"
| "iterencode (JInt i) level = str_int i"
| "iterencode (JStr s) level = encode_basestring_ascii s"
| "iterencode (JList []) level = ''[]''"
| "iterencode (JList (x # xs)) level =
     CHR ''['' # newline_indent (level + 1) @ iterencode x (level + 1)
       @ iterencode_list xs (level + 1) @ newline_indent level @ '']''"
| "iterencode (JDict []) level = ''{}''"
| "iterencode (JDict ((k, v) # kvs)) level =
     CHR ''{'' # newline_indent (level + 1) @ encode_basestring_ascii k @ '': ''
       @ iterencode v (level + 1)
       @ iterencode_dict kvs (level + 1) @ newline_indent level @ ''}''"
| "iterencode_list [] level = []"
| "iterencode_list (x # xs) level =
     CHR '','' # newline_indent level @ iterencode x level @ iterencode_list xs level"
| "iterencode_dict [] level = []"
| "iterencode_dict ((k, v) # kvs) level =
     CHR '','' # newline_indent level @ encode_basestring_ascii k @ '': ''
       @ iterencode v level @ iterencode_dict kvs level"

definition json_dumps :: "json \<Rightarrow> string" where
  "json_dumps obj = iterencode obj 0"

section \<open>main\<close>

text \<open>
  The inner loop of \<open>main\<close>, over the page numbers of \<open>range(start_page, outer_bound)\<close>:
  each page is submitted to the analyzer and its tables are appended to \<open>table_data\<close>.
\<close>

fun analyze_pages ::
  "addon \<Rightarrow> document \<Rightarrow> int list \<Rightarrow> table_info list \<Rightarrow> world \<Rightarrow> table_info list \<times> world" where
  "analyze_pages a document [] table_data w = (table_data, w)"
| "analyze_pages a document (pn # pages) table_data w =
     (let w1 = emit (Analyze (doc_id document) pn) w;
          result_tables = analyze a document pn
      in analyze_pages a document pages (table_data @ get_table_data result_tables) w1)"

text \<open>\<open>range(start_page, outer_bound)\<close> is the list of integers from \<open>start_page\<close> to \<open>outer_bound - 1\<close>.\<close>

definition page_range :: "int \<Rightarrow> int \<Rightarrow> document \<Rightarrow> int list" where
  "page_range sp ep document =
     (let outer_bound = (if ep > page_count document then page_count document + 1 else ep + 1)
      in [sp..outer_bound - 1])"

text \<open>
  The output file of a document is \<open>tables-{document.id}\<close> with the extension of the
  format. Opening with mode \<open>w\<close> replaces the file's text. Opening with mode \<open>a\<close> keeps it (a
  file that does not exist starts empty) and writes go to its end; \<open>tell()\<close> is then the
  length of the text.
\<close>

definition output_file_path :: "document \<Rightarrow> string \<Rightarrow> string" where
  "output_file_path document ext = ''tables-'' @ str_int (doc_id document) @ ext"

definition write_json :: "document \<Rightarrow> table_info list \<Rightarrow> world \<Rightarrow> world" where
  "write_json document table_data w =
     (let table_data_json = json_dumps (json_of_table_data table_data)
      in w\<lparr>files := (files w)(output_file_path document ''.json'' \<mapsto> table_data_json)\<rparr>)"

definition file_text :: "world \<Rightarrow> string \<Rightarrow> string" where
  "file_text w path = (case files w path of None \<Rightarrow> [] | Some text \<Rightarrow> text)"

definition write_csv :: "document \<Rightarrow> table_info list \<Rightarrow> world \<Rightarrow> world" where
  "write_csv document table_data w =
     (let csv_file = file_text w (output_file_path document ''.csv'');
          csv_file1 = (if length csv_file = 0 then csv_file @ writerow csv_header else csv_file);
          csv_data = convert_to_csv table_data;
          csv_file2 = csv_file1 @ writerows csv_data
      in w\<lparr>files := (files w)(output_file_path document ''.csv'' \<mapsto> csv_file2)\<rparr>)"

text \<open>
  The \<open>table_data\<close> that the loop over the pages of a document ends with: the tables
  of its pages, page after page.
\<close>

definition table_data_of :: "addon \<Rightarrow> int \<Rightarrow> int \<Rightarrow> document \<Rightarrow> table_info list" where
  "table_data_of a sp ep document =
     concat (map (\<lambda>pn. get_table_data (analyze a document pn)) (page_range sp ep document))"

text \<open>The body of the loop over the documents.\<close>

definition process_document :: "addon \<Rightarrow> string \<Rightarrow> int \<Rightarrow> int \<Rightarrow> document \<Rightarrow> world \<Rightarrow> world" where
  "process_document a fmt sp ep document w =
     (case analyze_pages a document (page_range sp ep document) [] w of
        (table_data, w1) \<Rightarrow>
          (let w2 = (if fmt = ''json'' then write_json document table_data w1 else w1)
           in if fmt = ''csv'' then write_csv document table_data w2 else w2))"

fun process_documents :: "addon \<Rightarrow> string \<Rightarrow> int \<Rightarrow> int \<Rightarrow> document list \<Rightarrow> world \<Rightarrow> world" where
  "process_documents a fmt sp ep [] w = w"
| "process_documents a fmt sp ep (document # documents) w =
     process_documents a fmt sp ep documents (process_document a fmt sp ep document w)"

text \<open>
  \<open>main\<close>: the three settings with their defaults, \<open>validate\<close>, the two checks of the
  page range, then the loop over the documents. Each \<open>sys.exit(0)\<close> ends the run with
  \<open>SystemExit 0\<close>; an exception of \<open>validate\<close> is not caught. Reading the analyzer's key
  and endpoint and building its client, between the checks and the loop, are taken to
  succeed.
\<close>

definition main :: "addon \<Rightarrow> world \<Rightarrow> (exn + unit) \<times> world" where
  "main a w =
     (let fmt = get_output_format (data a);
          sp = get_start_page (data a);
          ep = get_end_page (data a)
      in case validate a w of
           (Inl e, w1) \<Rightarrow> (Inl e, w1)
         | (Inr valid, w1) \<Rightarrow>
             if \<not> valid then
               (Inl (SystemExit 0),
                set_message (''You do not have sufficient AI credits to run this Add-On '' @
                             ''on this document set'') w1)
             else if ep < sp then
               (Inl (SystemExit 0),
                set_message (''The end page you provided is smaller than the start page, '' @
                             ''try again'') w1)
             else if sp < 1 then
               (Inl (SystemExit 0),
                set_message ''Your start page is less than 1, please try again'' w1)
             else (Inr (), process_documents a fmt sp ep (get_documents a) w1))"

section \<open>Reading JSON text\<close>

text \<open>
  \<open>json.loads\<close>, for the text that \<open>json.dumps\<close> writes: white space is skipped
  between tokens, a value is a string, a dictionary, a list, \<open>null\<close>, \<open>true\<close>,
  \<open>false\<close> or a number, and nothing but white space may follow the value. A number
  with a fraction or an exponent is a floating-point number in Python and is not read
  here; a \<open>\u\<close> escape is read when it names one of the 256 characters of
  \<open>char\<close>. The scanner recurses once per nesting level at least one character
  further, so the length of the text is fuel enough.
\<close>

definition is_ws :: "char \<Rightarrow> bool" where
  "is_ws c = (c = CHR '' '' \<or> c = CHR 0x09 \<or> c = CHR 0x0A \<or> c = CHR 0x0D)"

definition skip_ws :: "string \<Rightarrow> string" where
  "skip_ws s = dropWhile is_ws s"

definition is_digit :: "char \<Rightarrow> bool" where
  "is_digit c = (48 \<le> (of_char c :: nat) \<and> (of_char c :: nat) \<le> 57)"

definition digit_val :: "char \<Rightarrow> nat" where
  "digit_val c = of_char c - 48"

definition nat_of_digits :: "string \<Rightarrow> nat" where
  "nat_of_digits ds = foldl (\<lambda>n c. 10 * n + digit_val c) 0 ds"

definition scan_digits :: "string \<Rightarrow> string" where
  "scan_digits s =
     (if s \<noteq> [] \<and> hd s = CHR ''0'' then ''0'' else takeWhile is_digit s)"

definition scan_nat :: "string \<Rightarrow> (nat \<times> string) option" where
  "scan_nat s =
     (let ds = scan_digits s; rest = drop (length ds) s
      in if ds = [] then None
         else if rest \<noteq> [] \<and> (hd rest = CHR ''.'' \<or> hd rest = CHR ''e'' \<or> hd rest = CHR ''E'')
           then None
         else Some (nat_of_digits ds, rest))"

definition scan_number :: "string \<Rightarrow> (json \<times> string) option" where
  "scan_number s =
     (if s \<noteq> [] \<and> hd s = CHR ''-''
      then map_option (\<lambda>(n, rest). (JInt (- int n), rest)) (scan_nat (tl s))
      else map_option (\<lambda>(n, rest). (JInt (int n), rest)) (scan_nat s))"

definition hex_val :: "char \<Rightarrow> nat option" where
  "hex_val c =
     (let n = (of_char c :: nat) in
      if 48 \<le> n \<and> n \<le> 57 then Some (n - 48)
      else if 97 \<le> n \<and> n \<le> 102 then Some (n - 87)
      else if 65 \<le> n \<and> n \<le> 70 then Some (n - 55)
      else None)"

definition unescape :: "char \<Rightarrow> char option" where
  "unescape e =
     (if e = dquote then Some dquote
      else if e = backslash then Some backslash
      else if e = CHR ''/'' then Some CHR ''/''
      else if e = CHR ''b'' then Some (CHR 0x08)
      else if e = CHR ''f'' then Some (CHR 0x0C)
      else if e = CHR ''n'' then Some (CHR 0x0A)
      else if e = CHR ''r'' then Some (CHR 0x0D)
      else if e = CHR ''t'' then Some (CHR 0x09)
      else None)"

definition unicode_escape :: "char \<Rightarrow> char \<Rightarrow> char \<Rightarrow> char \<Rightarrow> char option" where
  "unicode_escape h1 h2 h3 h4 =
     (case (hex_val h1, hex_val h2, hex_val h3, hex_val h4) of
        (Some a, Some b, Some c, Some d) \<Rightarrow>
          (let n = 4096 * a + 256 * b + 16 * c + d
           in if n < 256 then Some (char_of n) else None)
      | _ \<Rightarrow> None)"

definition cons_char :: "char \<Rightarrow> (string \<times> string) option \<Rightarrow> (string \<times> string) option" where
  "cons_char c r = map_option (\<lambda>(str, rest). (c # str, rest)) r"

fun scanstring :: "string \<Rightarrow> (string \<times> string) option" where
  "scanstring [] = None"
| "scanstring (c # s) =
     (if c = dquote then Some ([], s)
      else if c = backslash then
        (case s of
           [] \<Rightarrow> None
         | e # t \<Rightarrow>
             if e = CHR ''u'' then
               (case t of
                  h1 # h2 # h3 # h4 # t' \<Rightarrow>
                    (case unicode_escape h1 h2 h3 h4 of
                       None \<Rightarrow> None
                     | Some ch \<Rightarrow> cons_char ch (scanstring t'))
                | _ \<Rightarrow> None)
             else
               (case unescape e of
                  None \<Rightarrow> None
                | Some ch \<Rightarrow> cons_char ch (scanstring t)))
      else if (of_char c :: nat) < 32 then None
      else cons_char c (scanstring s))"

fun dict_set :: "(string \<times> json) list \<Rightarrow> string \<Rightarrow> json \<Rightarrow> (string \<times> json) list" where
  "dict_set [] k v = [(k, v)]"
| "dict_set ((k', v') # kvs) k v =
     (if k' = k then (k, v) # kvs else (k', v') # dict_set kvs k v)"

definition dict_of_pairs :: "(string \<times> json) list \<Rightarrow> (string \<times> json) list" where
  "dict_of_pairs pairs = foldl (\<lambda>d (k, v). dict_set d k v) [] pairs"

fun scan_once :: "nat \<Rightarrow> string \<Rightarrow> (json \<times> string) option"
  and parse_array :: "nat \<Rightarrow> string \<Rightarrow> (json list \<times> string) option"
  and parse_object :: "nat \<Rightarrow> string \<Rightarrow> ((string \<times> json) list \<times> string) option" where
  "scan_once 0 s = None"
| "scan_once (Suc n) s =
     (case s of
        [] \<Rightarrow> None
      | c # t \<Rightarrow>
          if c = dquote then map_option (\<lambda>(str, rest). (JStr str, rest)) (scanstring t)
          else if c = CHR ''{'' then
            (if skip_ws t \<noteq> [] \<and> hd (skip_ws t) = CHR ''}'' then Some (JDict [], tl (skip_ws t))
             else map_option (\<lambda>(pairs, rest). (JDict (dict_of_pairs pairs), rest))
                    (parse_object n (skip_ws t)))
          else if c = CHR ''['' then
            (if skip_ws t \<noteq> [] \<and> hd (skip_ws t) = CHR '']'' then Some (JList [], tl (skip_ws t))
             else map_option (\<lambda>(values, rest). (JList values, rest)) (parse_array n (skip_ws t)))
          else if take 4 s = ''null'' then Some (JNull, drop 4 s)
          else if take 4 s = ''true'' then Some (JBool True, drop 4 s)
          else if take 5 s = ''false'' then Some (JBool False, drop 5 s)
          else scan_number s)"
| "parse_array 0 s = None"
| "parse_array (Suc n) s =
     (case scan_once n s of
        None \<Rightarrow> None
      | Some (v, rest) \<Rightarrow>
          (case skip_ws rest of
             [] \<Rightarrow> None
           | c # t \<Rightarrow>
               if c = CHR '']'' then Some ([v], t)
               else if c = CHR '','' then
                 map_option (\<lambda>(values, rest'). (v # values, rest')) (parse_array n (skip_ws t))
               else None))"
| "parse_object 0 s = None"
| "parse_object (Suc n) s =
     (case s of
        [] \<Rightarrow> None
      | q # s1 \<Rightarrow>
          if q \<noteq> dquote then None
          else
            (case scanstring s1 of
               None \<Rightarrow> None
             | Some (key, s2) \<Rightarrow>
                 (case skip_ws s2 of
                    [] \<Rightarrow> None
                  | colon # s3 \<Rightarrow>
                      if colon \<noteq> CHR '':'' then None
                      else
                        (case scan_once n (skip_ws s3) of
                           None \<Rightarrow> None
                         | Some (v, s4) \<Rightarrow>
                             (case skip_ws s4 of
                                [] \<Rightarrow> None
                              | c # t \<Rightarrow>
                                  if c = CHR ''}'' then Some ([(key, v)], t)
                                  else if c = CHR '','' then
                                    map_option (\<lambda>(pairs, rest). ((key, v) # pairs, rest))
                                      (parse_object n (skip_ws t))
                                  else None)))))"

definition json_loads :: "string \<Rightarrow> json option" where
  "json_loads s =
     (case scan_once (length s) (skip_ws s) of
        None \<Rightarrow> None
      | Some (obj, rest) \<Rightarrow> if skip_ws rest = [] then Some obj else None)"

text \<open>
  Where the digits of a number end: at the end of the text, or before a character that
  is neither a digit nor the start of a fraction or an exponent.
\<close>

definition number_end :: "string \<Rightarrow> bool" where
  "number_end rest =
     (rest = [] \<or> \<not> (is_digit (hd rest) \<or> hd rest = CHR ''.'' \<or> hd rest = CHR ''e''
                      \<or> hd rest = CHR ''E''))"

section \<open>Reading back what was written\<close>

text \<open>
  A Python dictionary holds a key once: the values that model one have distinct keys in
  every dictionary.
\<close>

fun distinct_keys :: "json \<Rightarrow> bool"
  and distinct_keys_list :: "json list \<Rightarrow> bool"
  and distinct_keys_dict :: "(string \<times> json) list \<Rightarrow> bool" where
  "distinct_keys JNull = True"
| "distinct_keys (JBool b) = True"
| "distinct_keys (JInt i) = True"
| "distinct_keys (JStr s) = True"
| "distinct_keys (JList xs) = distinct_keys_list xs"
| "distinct_keys (JDict kvs) = (distinct (map fst kvs) \<and> distinct_keys_dict kvs)"
| "distinct_keys_list [] = True"
| "distinct_keys_list (x # xs) = (distinct_keys x \<and> distinct_keys_list xs)"
| "distinct_keys_dict [] = True"
| "distinct_keys_dict ((k, v) # kvs) = (distinct_keys v \<and> distinct_keys_dict kvs)"

text \<open>
  A character that a value can start with: no white space, no closing bracket, no comma
  and no colon.
\<close>

definition value_start :: "char \<Rightarrow> bool" where
  "value_start c = (\<not> is_ws c \<and> c \<noteq> CHR '']'' \<and> c \<noteq> CHR ''}'' \<and> c \<noteq> CHR '','' \<and> c \<noteq> CHR '':'')"

text \<open>
  What is proved of a value, of the items of a list and of the pairs of a dictionary, by
  induction over \<open>iterencode\<close>: with as much fuel as the text is long, the scanner
  reads the value back from its text and leaves what follows it.
\<close>

definition scans :: "json \<Rightarrow> nat \<Rightarrow> bool" where
  "scans v level =
     (\<forall>n rest. length (iterencode v level) \<le> n \<longrightarrow> number_end rest \<longrightarrow>
        scan_once n (iterencode v level @ rest) = Some (v, rest))"

definition scans_items :: "json list \<Rightarrow> nat \<Rightarrow> bool" where
  "scans_items xs level =
     (\<forall>n x rest l. scans x level \<longrightarrow>
        length (iterencode x level) + length (iterencode_list xs level) < n \<longrightarrow>
        parse_array n (iterencode x level @ iterencode_list xs level
                       @ newline_indent l @ CHR '']'' # rest) = Some (x # xs, rest))"

definition scans_pairs :: "(string \<times> json) list \<Rightarrow> nat \<Rightarrow> bool" where
  "scans_pairs kvs level =
     (\<forall>n k v rest l. scans v level \<longrightarrow>
        length (iterencode v level) + length (iterencode_dict kvs level) < n \<longrightarrow>
        parse_object n (encode_basestring_ascii k @ '': '' @ iterencode v level
                        @ iterencode_dict kvs level @ newline_indent l @ CHR ''}'' # rest)
          = Some ((k, v) # kvs, rest))"

section \<open>Example runs\<close>

text \<open>
  An empty world, and an add-on on given documents whose analyzer finds one table of one
  cell on every page.
\<close>

definition demo_world :: world where
  "demo_world = \<lparr>trace = [], files = Map.empty\<rparr>"

definition demo_addon :: "addon_data \<Rightarrow> document list \<Rightarrow> charge_outcome \<Rightarrow> addon" where
  "demo_addon d documents outcome =
     \<lparr>data = d, get_document_count = Some (int (length documents)), org_id = Some 1,
      get_documents = documents, charge_credits = (\<lambda>cost. outcome),
      analyze = (\<lambda>document pn.
        [\<lparr>table_page_number = pn,
          table_cells = [\<lparr>cell_row_index = 0, cell_column_index = 0, cell_text = ''x''\<rparr>]\<rparr>])\<rparr>"

section \<open>Properties of calculate_cost\<close>

lemma calculate_cost_loop_set:
  "end_page d = Some ep \<Longrightarrow>
   calculate_cost_loop d documents acc =
     Inr (acc + (\<Sum>doc\<leftarrow>documents.
            min ep (page_count doc) - get_start_page d + 1))"
  by (induction documents arbitrary: acc) (simp_all add: min_def)

lemma calculate_cost_loop_absent:
  "end_page d = None \<Longrightarrow>
   calculate_cost_loop d documents acc = (if documents = [] then Inr acc else Inl TypeError)"
  by (cases documents) simp_all

text \<open>
  Claim C1. With \<open>end_page\<close> set to \<open>ep\<close>, \<open>calculate_cost\<close> returns 7 times the sum
  over the documents of \<open>min(ep, page_count) - start_page + 1\<close>, where \<open>start_page\<close> is
  the one that is set (and 1 when none is).
\<close>

theorem calculate_cost_formula:
  assumes "end_page d = Some ep"
  shows "fst (calculate_cost d documents w) =
           Inr (7 * (\<Sum>doc\<leftarrow>documents. min ep (page_count doc) - get_start_page d + 1))"
  using assms by (simp add: calculate_cost_def calculate_cost_loop_set Let_def mult.commute)

theorem calculate_cost_formula_witness:
  "fst (calculate_cost \<lparr>output_format = None, start_page = Some 2, end_page = Some 5\<rparr>
          [\<lparr>doc_id = 1, page_count = 3\<rparr>, \<lparr>doc_id = 2, page_count = 10\<rparr>]
          \<lparr>trace = [], files = Map.empty\<rparr>) = Inr 42"
  using calculate_cost_formula
    [of "\<lparr>output_format = None, start_page = Some 2, end_page = Some 5\<rparr>" 5
        "[\<lparr>doc_id = 1, page_count = 3\<rparr>, \<lparr>doc_id = 2, page_count = 10\<rparr>]"
        "\<lparr>trace = [], files = Map.empty\<rparr>"]
  by (simp add: get_start_page_def)

text \<open>
  Claim C6, as stated: \<open>calculate_cost\<close> raises whenever \<open>end_page\<close> is absent. It does
  not when there is no document: the loop body, where the comparison is, never runs, and
  the cost is 0.
\<close>

theorem calculate_cost_end_page_absent_counterexample:
  "end_page \<lparr>output_format = None, start_page = None, end_page = None\<rparr> = None
   \<and> fst (calculate_cost \<lparr>output_format = None, start_page = None, end_page = None\<rparr> []
            \<lparr>trace = [], files = Map.empty\<rparr>) = Inr 0"
  by (simp add: calculate_cost_def Let_def)

text \<open>
  Claim C6, amended. With \<open>end_page\<close> set, \<open>calculate_cost\<close> returns a cost, whatever
  the documents. With \<open>end_page\<close> absent it raises \<open>TypeError\<close> when there is at least
  one document, and returns 0 when there is none.
\<close>

theorem calculate_cost_fault:
  "(case end_page d of
      Some ep \<Rightarrow> \<exists>cost. fst (calculate_cost d documents w) = Inr cost
    | None \<Rightarrow> fst (calculate_cost d documents w) = (if documents = [] then Inr 0 else Inl TypeError))"
  by (simp add: calculate_cost_def calculate_cost_loop_set calculate_cost_loop_absent Let_def
           split: option.splits)

theorem calculate_cost_fault_witness:
  "fst (calculate_cost \<lparr>output_format = None, start_page = None, end_page = None\<rparr>
          [\<lparr>doc_id = 1, page_count = 3\<rparr>] \<lparr>trace = [], files = Map.empty\<rparr>) = Inl TypeError
   \<and> (\<exists>cost. fst (calculate_cost \<lparr>output_format = None, start_page = None, end_page = Some 2\<rparr>
          [\<lparr>doc_id = 1, page_count = 3\<rparr>] \<lparr>trace = [], files = Map.empty\<rparr>) = Inr cost)"
  using calculate_cost_fault
    [of "\<lparr>output_format = None, start_page = None, end_page = None\<rparr>"
        "[\<lparr>doc_id = 1, page_count = 3\<rparr>]" "\<lparr>trace = [], files = Map.empty\<rparr>"]
    calculate_cost_fault
    [of "\<lparr>output_format = None, start_page = None, end_page = Some 2\<rparr>"
        "[\<lparr>doc_id = 1, page_count = 3\<rparr>]" "\<lparr>trace = [], files = Map.empty\<rparr>"]
  by simp

section \<open>Properties of convert_to_csv\<close>

lemma convert_cells_eq:
  "convert_cells pn cs csv_data =
     csv_data @ map (\<lambda>c. [FInt pn, FInt (row_index c), FInt (column_index c), FStr (content c)]) cs"
  by (induction cs arbitrary: csv_data) simp_all

lemma convert_tables_eq:
  "convert_tables table_data csv_data =
     csv_data @ concat (map (\<lambda>t. map (\<lambda>c. [FInt (page_number t), FInt (row_index c),
                                            FInt (column_index c), FStr (content c)]) (cells t))
                         table_data)"
  by (induction table_data arbitrary: csv_data) (simp_all add: convert_cells_eq)

text \<open>
  Claim C5. \<open>convert_to_csv\<close> returns, table after table and within a table cell after
  cell, the row \<open>[page_number, row_index, column_index, content]\<close> of each cell; so it has
  as many rows as the tables have cells.
\<close>

theorem convert_to_csv_rows:
  "convert_to_csv table_data =
     concat (map (\<lambda>t. map (\<lambda>c. [FInt (page_number t), FInt (row_index c),
                                  FInt (column_index c), FStr (content c)]) (cells t))
               table_data)
   \<and> length (convert_to_csv table_data) = (\<Sum>t\<leftarrow>table_data. length (cells t))"
  by (simp add: convert_to_csv_def convert_tables_eq length_concat comp_def)

section \<open>Properties of validate\<close>

lemma trace_emit [simp]: "trace (emit e w) = trace w @ [e]"
  by (simp add: emit_def)

lemma files_emit [simp]: "files (emit e w) = files w"
  by (simp add: emit_def)

lemma trace_set_message [simp]: "trace (set_message msg w) = trace w @ [Set_message msg]"
  by (simp add: set_message_def)

lemma files_set_message [simp]: "files (set_message msg w) = files w"
  by (simp add: set_message_def)

lemma calculate_cost_eq:
  "calculate_cost d documents w =
     (case calculate_cost_loop d documents 0 of
        Inl e \<Rightarrow> (Inl e, w)
      | Inr n \<Rightarrow> (Inr (n * 7), emit (Print (n * 7)) w))"
  by (simp add: calculate_cost_def Let_def split: sum.splits)

lemma validate_eq:
  "validate a w =
     (if get_document_count a = None then
        (Inl (SystemExit 0),
         set_message (''It looks like no documents were selected. Search for some or '' @
                      ''select them and run again.'') w)
      else if not_org_id a then
        (Inl (SystemExit 0), set_message ''No organization to charge.'' w)
      else
        (case calculate_cost_loop (data a) (get_documents a) 0 of
           Inl e \<Rightarrow> (Inl e, w)
         | Inr n \<Rightarrow>
             (Inr (charge_credits a (n * 7) = Charged),
              emit (Charge_credits (n * 7)) (emit (Print (n * 7)) w))))"
  by (simp add: validate_def calculate_cost_eq Let_def split: sum.splits charge_outcome.splits)

text \<open>
  Claim C4. \<open>validate\<close> returns \<open>False\<close> exactly when it reaches the call of
  \<open>charge_credits\<close> with the calculated cost (documents are selected, an organization
  is set, \<open>calculate_cost\<close> returns) and that call raises \<open>ValueError\<close> or
  \<open>APIError\<close>; it returns \<open>True\<close> exactly when that call succeeds.
\<close>

theorem validate_result:
  "(fst (validate a w) = Inr False \<longleftrightarrow>
      get_document_count a \<noteq> None \<and> \<not> not_org_id a \<and>
      (\<exists>cost. fst (calculate_cost (data a) (get_documents a) w) = Inr cost \<and>
         (charge_credits a cost = Raises_ValueError \<or> charge_credits a cost = Raises_APIError)))
   \<and> (fst (validate a w) = Inr True \<longleftrightarrow>
      get_document_count a \<noteq> None \<and> \<not> not_org_id a \<and>
      (\<exists>cost. fst (calculate_cost (data a) (get_documents a) w) = Inr cost \<and>
         charge_credits a cost = Charged))"
proof -
  have c: "\<And>x. (x \<noteq> Charged) = (x = Raises_ValueError \<or> x = Raises_APIError)"
    by (case_tac x) simp_all
  show ?thesis
    by (simp add: validate_eq calculate_cost_eq c split: sum.splits)
qed

theorem validate_result_witness:
  "fst (validate (demo_addon \<lparr>output_format = None, start_page = Some 1, end_page = Some 2\<rparr>
                   [\<lparr>doc_id = 1, page_count = 3\<rparr>] Raises_ValueError) demo_world) = Inr False
   \<and> fst (validate (demo_addon \<lparr>output_format = None, start_page = Some 1, end_page = Some 2\<rparr>
                   [\<lparr>doc_id = 1, page_count = 3\<rparr>] Raises_APIError) demo_world) = Inr False
   \<and> fst (validate (demo_addon \<lparr>output_format = None, start_page = Some 1, end_page = Some 2\<rparr>
                   [\<lparr>doc_id = 1, page_count = 3\<rparr>] Charged) demo_world) = Inr True"
  using
    validate_result [of "demo_addon \<lparr>output_format = None, start_page = Some 1, end_page = Some 2\<rparr>
                   [\<lparr>doc_id = 1, page_count = 3\<rparr>] Raises_ValueError" demo_world]
    validate_result [of "demo_addon \<lparr>output_format = None, start_page = Some 1, end_page = Some 2\<rparr>
                   [\<lparr>doc_id = 1, page_count = 3\<rparr>] Raises_APIError" demo_world]
    validate_result [of "demo_addon \<lparr>output_format = None, start_page = Some 1, end_page = Some 2\<rparr>
                   [\<lparr>doc_id = 1, page_count = 3\<rparr>] Charged" demo_world]
  by (simp add: demo_addon_def demo_world_def not_org_id_def calculate_cost_def Let_def)

lemma sum_list_neg:
  fixes f :: "'a \<Rightarrow> int"
  shows "xs \<noteq> [] \<Longrightarrow> \<forall>x\<in>set xs. f x < 0 \<Longrightarrow> (\<Sum>x\<leftarrow>xs. f x) < 0"
proof (induction xs)
  case Nil
  then show ?case by simp
next
  case (Cons x xs)
  show ?case
  proof (cases "xs = []")
    case True
    with Cons.prems show ?thesis by simp
  next
    case False
    with Cons have "(\<Sum>x\<leftarrow>xs. f x) < 0" by simp
    moreover from Cons.prems have "f x < 0" by simp
    ultimately show ?thesis by simp
  qed
qed

text \<open>
  Claim C9. With \<open>end_page\<close> set to \<open>ep\<close>, at least one document, and
  \<open>min(ep, page_count) < start_page - 1\<close> for every document, \<open>calculate_cost\<close>
  returns a negative cost, and \<open>validate\<close> (documents selected, an organization set)
  prints that cost and passes it to \<open>charge_credits\<close>.
\<close>

theorem negative_cost_charged:
  assumes "get_document_count a \<noteq> None" and "\<not> not_org_id a"
    and "end_page (data a) = Some ep"
    and "get_documents a \<noteq> []"
    and "\<forall>doc\<in>set (get_documents a). min ep (page_count doc) < get_start_page (data a) - 1"
  shows "\<exists>cost<0. fst (calculate_cost (data a) (get_documents a) w) = Inr cost
           \<and> trace (snd (validate a w)) = trace w @ [Print cost, Charge_credits cost]"
proof -
  let ?n = "\<Sum>doc\<leftarrow>get_documents a. min ep (page_count doc) - get_start_page (data a) + 1"
  from assms(5)
  have "\<forall>doc\<in>set (get_documents a). min ep (page_count doc) - get_start_page (data a) + 1 < 0"
    by auto
  with assms(4) have neg: "?n < 0"
    by (rule sum_list_neg)
  have loop: "calculate_cost_loop (data a) (get_documents a) 0 = Inr ?n"
    using assms(3) by (simp add: calculate_cost_loop_set)
  have "fst (calculate_cost (data a) (get_documents a) w) = Inr (?n * 7)"
    by (simp add: calculate_cost_eq loop)
  moreover have "trace (snd (validate a w)) = trace w @ [Print (?n * 7), Charge_credits (?n * 7)]"
    using assms(1,2) by (simp add: validate_eq loop)
  moreover from neg have "?n * 7 < 0" by simp
  ultimately show ?thesis by blast
qed

theorem negative_cost_charged_witness:
  "\<exists>cost<0.
     fst (calculate_cost \<lparr>output_format = None, start_page = Some 5, end_page = Some 2\<rparr>
            [\<lparr>doc_id = 1, page_count = 10\<rparr>] demo_world) = Inr cost
     \<and> trace (snd (validate
           (demo_addon \<lparr>output_format = None, start_page = Some 5, end_page = Some 2\<rparr>
              [\<lparr>doc_id = 1, page_count = 10\<rparr>] Charged) demo_world))
         = [Print cost, Charge_credits cost]"
  using negative_cost_charged
    [of "demo_addon \<lparr>output_format = None, start_page = Some 5, end_page = Some 2\<rparr>
              [\<lparr>doc_id = 1, page_count = 10\<rparr>] Charged" 2 demo_world]
  by (simp add: demo_addon_def demo_world_def not_org_id_def get_start_page_def)

section \<open>Properties of main\<close>

lemma world_trace_same [simp]: "w\<lparr>trace := trace w\<rparr> = w"
  by simp

lemma analyze_pages_eq:
  "analyze_pages a document pages table_data w =
     (table_data @ concat (map (\<lambda>pn. get_table_data (analyze a document pn)) pages),
      w\<lparr>trace := trace w @ map (Analyze (doc_id document)) pages\<rparr>)"
  by (induction pages arbitrary: table_data w) (simp_all add: emit_def Let_def)

lemma page_range_eq: "page_range sp ep document = [sp..min ep (page_count document)]"
  by (simp add: page_range_def Let_def min_def)

lemma trace_write_json [simp]: "trace (write_json document table_data w) = trace w"
  by (simp add: write_json_def Let_def)

lemma trace_write_csv [simp]: "trace (write_csv document table_data w) = trace w"
  by (simp add: write_csv_def Let_def)

lemma trace_process_document:
  "trace (process_document a fmt sp ep document w) =
     trace w @ map (Analyze (doc_id document)) [sp..min ep (page_count document)]"
  by (simp add: process_document_def analyze_pages_eq page_range_eq Let_def)

lemma trace_process_documents:
  "trace (process_documents a fmt sp ep documents w) =
     trace w @ concat (map (\<lambda>document. map (Analyze (doc_id document))
                                           [sp..min ep (page_count document)]) documents)"
  by (induction documents arbitrary: w) (simp_all add: trace_process_document)

lemma main_valid:
  assumes "validate a w = (Inr True, w1)"
    and "1 \<le> get_start_page (data a)"
    and "get_start_page (data a) \<le> get_end_page (data a)"
  shows "main a w =
    (Inr (), process_documents a (get_output_format (data a))
               (get_start_page (data a)) (get_end_page (data a)) (get_documents a) w1)"
  using assms by (simp add: main_def Let_def)

text \<open>
  Claim C3. When \<open>validate\<close> has returned \<open>True\<close> and \<open>1 \<le> start_page \<le> end_page\<close>,
  what \<open>main\<close> does after \<open>validate\<close> is exactly this: for each document in turn,
  one analyzer call per page from \<open>start_page\<close> to \<open>min(end_page, page_count)\<close>,
  in increasing order.
\<close>

theorem main_analyzer_calls:
  assumes "fst (validate a w) = Inr True"
    and "1 \<le> get_start_page (data a)"
    and "get_start_page (data a) \<le> get_end_page (data a)"
  shows "trace (snd (main a w)) =
           trace (snd (validate a w))
           @ concat (map (\<lambda>document.
                            map (Analyze (doc_id document))
                              [get_start_page (data a)
                               ..min (get_end_page (data a)) (page_count document)])
                       (get_documents a))"
proof -
  obtain w1 where v: "validate a w = (Inr True, w1)"
    using assms(1) by (cases "validate a w") simp
  show ?thesis
    using main_valid [OF v assms(2,3)] by (simp add: v trace_process_documents)
qed

theorem main_analyzer_calls_witness:
  "trace (snd (main (demo_addon \<lparr>output_format = None, start_page = Some 2, end_page = Some 4\<rparr>
                      [\<lparr>doc_id = 7, page_count = 3\<rparr>, \<lparr>doc_id = 8, page_count = 9\<rparr>] Charged)
                 demo_world))
   = [Print 35, Charge_credits 35, Analyze 7 2, Analyze 7 3, Analyze 8 2, Analyze 8 3, Analyze 8 4]"
  using main_analyzer_calls
    [of "demo_addon \<lparr>output_format = None, start_page = Some 2, end_page = Some 4\<rparr>
           [\<lparr>doc_id = 7, page_count = 3\<rparr>, \<lparr>doc_id = 8, page_count = 9\<rparr>] Charged"
        demo_world]
  by (simp add: demo_addon_def demo_world_def validate_eq not_org_id_def upto.simps
        get_start_page_def get_end_page_def)





section \<open>Integers as text\<close>

lemma lt10_cases: "n < 10 \<Longrightarrow> n \<in> {0, 1, 2, 3, 4, 5, 6, 7, 8, 9::nat}"
  by (simp add: numeral_eq_Suc less_Suc_eq)

lemma lt16_cases: "n < 16 \<Longrightarrow> n \<in> {0, 1, 2, 3, 4, 5, 6, 7, 8, 9, 10, 11, 12, 13, 14, 15::nat}"
  by (simp add: numeral_eq_Suc less_Suc_eq)

lemma of_char_digit_char: "n < 10 \<Longrightarrow> (of_char (digit_char n) :: nat) = 48 + n"
  by (drule lt10_cases) (auto simp: digit_char_def)

lemma is_digit_digit_char: "n < 10 \<Longrightarrow> is_digit (digit_char n)"
  by (simp add: is_digit_def of_char_digit_char)

lemma digit_val_digit_char: "n < 10 \<Longrightarrow> digit_val (digit_char n) = n"
  by (simp add: digit_val_def of_char_digit_char)

lemma hex_val_digit_char: "n < 16 \<Longrightarrow> hex_val (digit_char n) = Some n"
  by (drule lt16_cases) (auto simp: digit_char_def hex_val_def)

lemma str_nat_unfold:
  "str_nat n = (if n < 10 then [digit_char n] else str_nat (n div 10) @ [digit_char (n mod 10)])"
  by (rule str_nat.simps)

lemma str_nat_not_Nil: "str_nat n \<noteq> []"
  by (subst str_nat_unfold) simp

lemma str_nat_digits: "c \<in> set (str_nat n) \<Longrightarrow> is_digit c"
proof (induction n arbitrary: c rule: str_nat.induct)
  case (1 n)
  show ?case
  proof (cases "n < 10")
    case True
    with "1.prems" show ?thesis
      by (subst (asm) str_nat_unfold) (simp add: is_digit_digit_char)
  next
    case False
    with "1.prems" have "c \<in> set (str_nat (n div 10)) \<or> c = digit_char (n mod 10)"
      by (subst (asm) str_nat_unfold) auto
    with False "1.IH" show ?thesis
      by (auto simp: is_digit_digit_char)
  qed
qed

lemma nat_of_digits_snoc: "nat_of_digits (ds @ [c]) = 10 * nat_of_digits ds + digit_val c"
  by (simp add: nat_of_digits_def)

lemma nat_of_digits_str_nat: "nat_of_digits (str_nat n) = n"
proof (induction n rule: str_nat.induct)
  case (1 n)
  show ?case
  proof (cases "n < 10")
    case True
    then show ?thesis
      by (subst str_nat_unfold) (simp add: nat_of_digits_def digit_val_digit_char)
  next
    case False
    with "1.IH" show ?thesis
      by (subst str_nat_unfold) (simp add: nat_of_digits_snoc digit_val_digit_char)
  qed
qed

lemma hd_str_nat: "hd (str_nat n) = CHR ''0'' \<longleftrightarrow> n = 0"
proof (induction n rule: str_nat.induct)
  case (1 n)
  show ?case
  proof (cases "n < 10")
    case True
    then show ?thesis
      by (subst str_nat_unfold, drule_tac lt10_cases) (auto simp: digit_char_def)
  next
    case False
    with "1.IH" show ?thesis
      by (subst str_nat_unfold) (simp add: str_nat_not_Nil)
  qed
qed

lemma str_nat_0: "str_nat 0 = ''0''"
  by (subst str_nat_unfold) (simp add: digit_char_def)

lemma takeWhile_digits:
  "number_end rest \<Longrightarrow> takeWhile is_digit (str_nat n @ rest) = str_nat n"
  by (cases rest) (auto simp: number_end_def takeWhile_append str_nat_digits takeWhile_eq_all_conv[THEN iffD2]
                    dest: str_nat_digits)

lemma not_minus_digit: "is_digit c \<Longrightarrow> c \<noteq> CHR ''-''"
  by (auto simp: is_digit_def)

lemma hd_str_nat_not_minus: "hd (str_nat n) \<noteq> CHR ''-''"
  using str_nat_digits [of "hd (str_nat n)" n] str_nat_not_Nil [of n]
  by (auto dest: not_minus_digit)

lemma scan_digits_str_nat:
  assumes "number_end rest"
  shows "scan_digits (str_nat n @ rest) = str_nat n"
proof (cases "n = 0")
  case True
  then show ?thesis by (simp add: scan_digits_def str_nat_0)
next
  case False
  then have "hd (str_nat n) \<noteq> CHR ''0''" by (simp add: hd_str_nat)
  then show ?thesis
    using assms by (simp add: scan_digits_def str_nat_not_Nil takeWhile_digits)
qed

lemma scan_nat_str_nat:
  assumes "number_end rest"
  shows "scan_nat (str_nat n @ rest) = Some (n, rest)"
  using assms
  by (auto simp: scan_nat_def scan_digits_str_nat str_nat_not_Nil nat_of_digits_str_nat
        number_end_def)

lemma scan_number_str_int:
  assumes "number_end rest"
  shows "scan_number (str_int i @ rest) = Some (JInt i, rest)"
proof (cases "i < 0")
  case False
  then show ?thesis
    using hd_str_nat_not_minus [of "nat i"]
    by (simp add: str_int_def scan_number_def str_nat_not_Nil scan_nat_str_nat [OF assms])
next
  case True
  then show ?thesis
    by (simp add: str_int_def scan_number_def scan_nat_str_nat [OF assms])
qed

lemma str_int_inj: "str_int i = str_int j \<Longrightarrow> i = j"
proof -
  assume e: "str_int i = str_int j"
  have "scan_number (str_int i @ []) = Some (JInt i, [])"
    by (rule scan_number_str_int) (simp add: number_end_def)
  moreover have "scan_number (str_int j @ []) = Some (JInt j, [])"
    by (rule scan_number_str_int) (simp add: number_end_def)
  ultimately show "i = j" using e by simp
qed

lemma output_file_path_inj:
  "output_file_path d ext = output_file_path d' ext \<longleftrightarrow> doc_id d = doc_id d'"
  by (auto simp: output_file_path_def dest: str_int_inj)

section \<open>The files that main writes\<close>

lemma files_validate: "files (snd (validate a w)) = files w"
  by (simp add: validate_eq split: sum.splits)

lemma process_document_json:
  "process_document a ''json'' sp ep document w =
     write_json document (table_data_of a sp ep document)
       (w\<lparr>trace := trace w @ map (Analyze (doc_id document)) (page_range sp ep document)\<rparr>)"
  by (simp add: process_document_def analyze_pages_eq table_data_of_def)

lemma process_document_csv:
  "process_document a ''csv'' sp ep document w =
     write_csv document (table_data_of a sp ep document)
       (w\<lparr>trace := trace w @ map (Analyze (doc_id document)) (page_range sp ep document)\<rparr>)"
  by (simp add: process_document_def analyze_pages_eq table_data_of_def)

lemma files_process_document_json:
  "files (process_document a ''json'' sp ep document w) =
     (files w)(output_file_path document ''.json'' \<mapsto>
                 json_dumps (json_of_table_data (table_data_of a sp ep document)))"
  by (simp add: process_document_json write_json_def)

lemma file_text_trace [simp]: "file_text (w\<lparr>trace := t\<rparr>) path = file_text w path"
  by (simp add: file_text_def)

lemma files_process_document_csv:
  "files (process_document a ''csv'' sp ep document w) =
     (files w)(output_file_path document ''.csv'' \<mapsto>
                 file_text w (output_file_path document ''.csv'')
                 @ (if file_text w (output_file_path document ''.csv'') = []
                    then writerow csv_header else [])
                 @ writerows (convert_to_csv (table_data_of a sp ep document)))"
  by (simp add: process_document_csv write_csv_def Let_def)

lemma files_process_documents_other:
  assumes "fmt = ''json'' \<and> ext = ''.json'' \<or> fmt = ''csv'' \<and> ext = ''.csv''"
    and "doc_id document \<notin> doc_id ` set documents"
  shows "files (process_documents a fmt sp ep documents w) (output_file_path document ext)
           = files w (output_file_path document ext)"
  using assms
proof (induction documents arbitrary: w)
  case Nil
  then show ?case by simp
next
  case (Cons d documents)
  from Cons.prems have ne: "output_file_path d ext \<noteq> output_file_path document ext"
    by (simp add: output_file_path_inj)
  from Cons.prems(1) have
    "files (process_document a fmt sp ep d w) (output_file_path document ext)
       = files w (output_file_path document ext)"
    using ne by (auto simp: files_process_document_json files_process_document_csv)
  with Cons show ?case by simp
qed

lemma files_process_documents_json:
  assumes "document \<in> set documents" and "distinct (map doc_id documents)"
  shows "files (process_documents a ''json'' sp ep documents w) (output_file_path document ''.json'')
           = Some (json_dumps (json_of_table_data (table_data_of a sp ep document)))"
  using assms
proof (induction documents arbitrary: w)
  case Nil
  then show ?case by simp
next
  case (Cons d documents)
  show ?case
  proof (cases "d = document")
    case True
    with Cons.prems have "doc_id document \<notin> doc_id ` set documents" by simp
    then show ?thesis
      using True by (simp add: files_process_documents_other files_process_document_json)
  next
    case False
    with Cons show ?thesis by simp
  qed
qed

lemma files_process_documents_csv:
  assumes "document \<in> set documents" and "distinct (map doc_id documents)"
  shows "files (process_documents a ''csv'' sp ep documents w) (output_file_path document ''.csv'')
           = Some (file_text w (output_file_path document ''.csv'')
                   @ (if file_text w (output_file_path document ''.csv'') = []
                      then writerow csv_header else [])
                   @ writerows (convert_to_csv (table_data_of a sp ep document)))"
  using assms
proof (induction documents arbitrary: w)
  case Nil
  then show ?case by simp
next
  case (Cons d documents)
  show ?case
  proof (cases "d = document")
    case True
    with Cons.prems have "doc_id document \<notin> doc_id ` set documents" by simp
    then show ?thesis
      using True by (simp add: files_process_documents_other files_process_document_csv)
  next
    case False
    with Cons.prems have in_rest: "document \<in> set documents"
      and dist: "distinct (map doc_id documents)"
      and "doc_id d \<noteq> doc_id document" by auto
    then have "file_text (process_document a ''csv'' sp ep d w) (output_file_path document ''.csv'')
                 = file_text w (output_file_path document ''.csv'')"
      by (simp add: file_text_def files_process_document_csv output_file_path_inj)
    with Cons.IH [OF in_rest dist] show ?thesis by simp
  qed
qed

lemma table_data_of_empty:
  "min ep (page_count document) < sp \<Longrightarrow> table_data_of a sp ep document = []"
  by (simp add: table_data_of_def page_range_eq)

lemma json_dumps_empty: "json_dumps (json_of_table_data []) = ''[]''"
  by (simp add: json_dumps_def json_of_table_data_def)

lemma writerow_not_Nil: "writerow row \<noteq> []"
  by (simp add: writerow_def)

lemma no_calls_for_document:
  assumes "document \<in> set documents" and "distinct (map doc_id documents)"
    and "min ep (page_count document) < sp"
  shows "Analyze (doc_id document) pn
           \<notin> set (concat (map (\<lambda>d. map (Analyze (doc_id d)) [sp..min ep (page_count d)]) documents))"
proof
  assume "Analyze (doc_id document) pn
            \<in> set (concat (map (\<lambda>d. map (Analyze (doc_id d)) [sp..min ep (page_count d)]) documents))"
  then obtain d where d: "d \<in> set documents" "doc_id d = doc_id document"
    and pn: "sp \<le> pn" "pn \<le> min ep (page_count d)"
    by auto
  from assms(2) have "inj_on doc_id (set documents)"
    by (simp add: distinct_map)
  with d assms(1) have "d = document"
    by (auto dest: inj_onD)
  with pn assms(3) show False by (simp add: min_def split: if_splits)
qed

text \<open>
  Claim C10. In a run that passes \<open>validate\<close> and the checks of the page range, over
  documents with distinct ids, take a document with \<open>start_page > min(end_page, page_count)\<close>.
  After \<open>validate\<close>, \<open>main\<close> makes no analyzer call for that document. With
  \<open>output_format\<close> \<open>json\<close> its file holds \<open>[]\<close> in the end; with \<open>csv\<close> its file
  holds the header row alone when it was empty or absent before, and what it held before
  otherwise.
\<close>

theorem empty_range_output:
  assumes "fst (validate a w) = Inr True"
    and "1 \<le> get_start_page (data a)"
    and "get_start_page (data a) \<le> get_end_page (data a)"
    and "document \<in> set (get_documents a)"
    and "distinct (map doc_id (get_documents a))"
    and "min (get_end_page (data a)) (page_count document) < get_start_page (data a)"
  shows "(\<exists>evs. trace (snd (main a w)) = trace (snd (validate a w)) @ evs
                \<and> (\<forall>pn. Analyze (doc_id document) pn \<notin> set evs))
       \<and> (get_output_format (data a) = ''json'' \<longrightarrow>
            files (snd (main a w)) (output_file_path document ''.json'') = Some ''[]'')
       \<and> (get_output_format (data a) = ''csv'' \<longrightarrow>
            files (snd (main a w)) (output_file_path document ''.csv'') =
              Some (if file_text w (output_file_path document ''.csv'') = []
                    then writerow csv_header
                    else file_text w (output_file_path document ''.csv'')))"
proof -
  obtain w1 where v: "validate a w = (Inr True, w1)"
    using assms(1) by (cases "validate a w") simp
  have f: "file_text w1 = file_text w"
    using files_validate [of a w] by (simp add: v file_text_def fun_eq_iff)
  note m = main_valid [OF v assms(2,3)]
  have "trace (snd (main a w)) = trace (snd (validate a w))
          @ concat (map (\<lambda>d. map (Analyze (doc_id d))
                      [get_start_page (data a)..min (get_end_page (data a)) (page_count d)])
                    (get_documents a))"
    by (simp add: m v trace_process_documents)
  then have calls: "\<exists>evs. trace (snd (main a w)) = trace (snd (validate a w)) @ evs
                \<and> (\<forall>pn. Analyze (doc_id document) pn \<notin> set evs)"
    using no_calls_for_document [OF assms(4,5,6)] by blast
  have json: "files (snd (main a w)) (output_file_path document ''.json'') = Some ''[]''"
    if "get_output_format (data a) = ''json''"
    using that assms(4,5,6)
    by (simp add: m files_process_documents_json table_data_of_empty json_dumps_empty)
  have csv: "files (snd (main a w)) (output_file_path document ''.csv'') =
              Some (if file_text w (output_file_path document ''.csv'') = []
                    then writerow csv_header
                    else file_text w (output_file_path document ''.csv''))"
    if "get_output_format (data a) = ''csv''"
    using that assms(4,5,6)
    by (simp add: m files_process_documents_csv table_data_of_empty f convert_to_csv_def
          writerows_def)
  from calls json csv show ?thesis by blast
qed


theorem empty_range_output_witness:
  "files (snd (main (demo_addon \<lparr>output_format = None, start_page = Some 4, end_page = Some 6\<rparr>
                      [\<lparr>doc_id = 7, page_count = 3\<rparr>, \<lparr>doc_id = 8, page_count = 9\<rparr>] Charged)
                 demo_world))
     (output_file_path \<lparr>doc_id = 7, page_count = 3\<rparr> ''.json'') = Some ''[]''
   \<and> files (snd (main (demo_addon \<lparr>output_format = Some ''csv'', start_page = Some 4,
                                   end_page = Some 6\<rparr>
                      [\<lparr>doc_id = 7, page_count = 3\<rparr>, \<lparr>doc_id = 8, page_count = 9\<rparr>] Charged)
                 demo_world))
     (output_file_path \<lparr>doc_id = 7, page_count = 3\<rparr> ''.csv'') = Some (writerow csv_header)"
  using
    empty_range_output
      [of "demo_addon \<lparr>output_format = None, start_page = Some 4, end_page = Some 6\<rparr>
             [\<lparr>doc_id = 7, page_count = 3\<rparr>, \<lparr>doc_id = 8, page_count = 9\<rparr>] Charged"
          demo_world "\<lparr>doc_id = 7, page_count = 3\<rparr>"]
    empty_range_output
      [of "demo_addon \<lparr>output_format = Some ''csv'', start_page = Some 4, end_page = Some 6\<rparr>
             [\<lparr>doc_id = 7, page_count = 3\<rparr>, \<lparr>doc_id = 8, page_count = 9\<rparr>] Charged"
          demo_world "\<lparr>doc_id = 7, page_count = 3\<rparr>"]
  by (simp add: demo_addon_def demo_world_def validate_eq not_org_id_def file_text_def
        get_start_page_def get_end_page_def get_output_format_def)

text \<open>
  Claim C8. In a run with \<open>output_format\<close> \<open>csv\<close> that passes \<open>validate\<close> and the
  checks of the page range, over documents with distinct ids, the file of a document ends
  as the text it had before, followed by the header row if that text was empty, followed
  by the rows of the document's table data. So when the file is empty or absent at first
  and a second such run, on the files the first one left, has a document of the same id,
  the file ends as one header row, the rows of the first run and the rows of the second.
\<close>

theorem csv_append_only:
  assumes "fst (validate a w) = Inr True"
    and "1 \<le> get_start_page (data a)"
    and "get_start_page (data a) \<le> get_end_page (data a)"
    and "get_output_format (data a) = ''csv''"
    and "document \<in> set (get_documents a)"
    and "distinct (map doc_id (get_documents a))"
    and "fst (validate a' w') = Inr True"
    and "1 \<le> get_start_page (data a')"
    and "get_start_page (data a') \<le> get_end_page (data a')"
    and "get_output_format (data a') = ''csv''"
    and "document' \<in> set (get_documents a')"
    and "distinct (map doc_id (get_documents a'))"
    and "doc_id document' = doc_id document"
    and "files w' = files (snd (main a w))"
    and "path = output_file_path document ''.csv''"
    and "rows = convert_to_csv
                  (table_data_of a (get_start_page (data a)) (get_end_page (data a)) document)"
    and "rows' = convert_to_csv
                  (table_data_of a' (get_start_page (data a')) (get_end_page (data a')) document')"
  shows "files (snd (main a w)) path =
           Some (file_text w path
                 @ (if file_text w path = [] then writerow csv_header else [])
                 @ writerows rows)
       \<and> (file_text w path = [] \<longrightarrow>
            files (snd (main a' w')) path =
              Some (writerow csv_header @ writerows rows @ writerows rows'))"
proof -
  obtain w1 where v: "validate a w = (Inr True, w1)"
    using assms(1) by (cases "validate a w") simp
  have f: "file_text w1 = file_text w"
    using files_validate [of a w] by (simp add: v file_text_def fun_eq_iff)
  have first: "files (snd (main a w)) path =
           Some (file_text w path
                 @ (if file_text w path = [] then writerow csv_header else [])
                 @ writerows rows)"
    using assms(4,5,6)
    by (simp add: main_valid [OF v assms(2,3)] files_process_documents_csv f assms(15,16))
  obtain w1' where v': "validate a' w' = (Inr True, w1')"
    using assms(7) by (cases "validate a' w'") simp
  have f': "file_text w1' = file_text w'"
    using files_validate [of a' w'] by (simp add: v' file_text_def fun_eq_iff)
  have path': "output_file_path document' ''.csv'' = path"
    using assms(13) by (simp add: assms(15) output_file_path_inj)
  have second: "files (snd (main a' w')) path =
           Some (file_text w' path
                 @ (if file_text w' path = [] then writerow csv_header else [])
                 @ writerows rows')"
    using assms(10,11,12) files_process_documents_csv [OF assms(11,12), of a' _ _ w1']
    by (simp add: main_valid [OF v' assms(8,9)] f' assms(17) path')
  have "file_text w' path = writerow csv_header @ writerows rows" if "file_text w path = []"
    using that first by (simp add: file_text_def assms(14))
  with first second show ?thesis
    by (simp add: writerow_not_Nil)
qed


theorem csv_append_only_witness:
  "files (snd (main (demo_addon \<lparr>output_format = Some ''csv'', start_page = Some 2,
                                 end_page = Some 2\<rparr> [\<lparr>doc_id = 7, page_count = 3\<rparr>] Charged)
                (snd (main (demo_addon \<lparr>output_format = Some ''csv'', start_page = Some 1,
                                         end_page = Some 1\<rparr> [\<lparr>doc_id = 7, page_count = 3\<rparr>]
                              Charged)
                        demo_world))))
     (output_file_path \<lparr>doc_id = 7, page_count = 3\<rparr> ''.csv'')
   = Some (writerow csv_header
           @ writerows [[FInt 1, FInt 0, FInt 0, FStr ''x'']]
           @ writerows [[FInt 2, FInt 0, FInt 0, FStr ''x'']])"
  using csv_append_only
    [of "demo_addon \<lparr>output_format = Some ''csv'', start_page = Some 1, end_page = Some 1\<rparr>
           [\<lparr>doc_id = 7, page_count = 3\<rparr>] Charged"
        demo_world
        "\<lparr>doc_id = 7, page_count = 3\<rparr>"
        "demo_addon \<lparr>output_format = Some ''csv'', start_page = Some 2, end_page = Some 2\<rparr>
           [\<lparr>doc_id = 7, page_count = 3\<rparr>] Charged"
        "snd (main (demo_addon \<lparr>output_format = Some ''csv'', start_page = Some 1,
                                 end_page = Some 1\<rparr> [\<lparr>doc_id = 7, page_count = 3\<rparr>] Charged)
                demo_world)"
        "\<lparr>doc_id = 7, page_count = 3\<rparr>"
        "output_file_path \<lparr>doc_id = 7, page_count = 3\<rparr> ''.csv''"
        "[[FInt 1, FInt 0, FInt 0, FStr ''x'']]"
        "[[FInt 2, FInt 0, FInt 0, FStr ''x'']]"]
  by (simp add: demo_addon_def demo_world_def validate_eq not_org_id_def file_text_def
        get_start_page_def get_end_page_def get_output_format_def table_data_of_def
        page_range_def get_table_data_def convert_to_csv_def)

section \<open>Strings as JSON text\<close>

lemma hex4_decode:
  assumes "n < 256"
  shows "unicode_escape (digit_char (n div 4096 mod 16)) (digit_char (n div 256 mod 16))
           (digit_char (n div 16 mod 16)) (digit_char (n mod 16)) = Some (char_of n)"
proof -
  have "4096 * (n div 4096 mod 16) + 256 * (n div 256 mod 16) + 16 * (n div 16 mod 16) + n mod 16 = n"
    using assms by simp
  then show ?thesis
    using assms by (simp add: unicode_escape_def hex_val_digit_char Let_def)
qed

lemma of_char_lt_256: "(of_char c :: nat) < 256"
  by simp

lemma scanstring_escape_char:
  "scanstring (escape_char c @ s) = cons_char c (scanstring s)"
proof -
  consider "c = backslash" | "c = dquote" | "c = CHR 0x08" | "c = CHR 0x0C" | "c = CHR 0x0A"
    | "c = CHR 0x0D" | "c = CHR 0x09"
    | "c \<noteq> backslash" "c \<noteq> dquote" "32 \<le> (of_char c :: nat)" "(of_char c :: nat) \<le> 126"
    | "c \<noteq> backslash" "c \<noteq> dquote" "c \<noteq> CHR 0x08" "c \<noteq> CHR 0x0C" "c \<noteq> CHR 0x0A"
      "c \<noteq> CHR 0x0D" "c \<noteq> CHR 0x09" "\<not> (32 \<le> (of_char c :: nat) \<and> (of_char c :: nat) \<le> 126)"
    by blast
  then show ?thesis
  proof cases
    case 1
    then show ?thesis by (simp add: escape_char_def unescape_def backslash_def dquote_def)
  next
    case 2
    then show ?thesis by (simp add: escape_char_def unescape_def backslash_def dquote_def)
  next
    case 3
    then show ?thesis by (simp add: escape_char_def unescape_def backslash_def dquote_def)
  next
    case 4
    then show ?thesis by (simp add: escape_char_def unescape_def backslash_def dquote_def)
  next
    case 5
    then show ?thesis by (simp add: escape_char_def unescape_def backslash_def dquote_def)
  next
    case 6
    then show ?thesis by (simp add: escape_char_def unescape_def backslash_def dquote_def)
  next
    case 7
    then show ?thesis by (simp add: escape_char_def unescape_def backslash_def dquote_def)
  next
    case 8
    then have "escape_char c = [c]"
      by (auto simp: escape_char_def)
    with 8 show ?thesis by simp
  next
    case 9
    then have "escape_char c = backslash # CHR ''u'' # hex4 (of_char c)"
      by (simp add: escape_char_def)
    then show ?thesis
      using hex4_decode [OF of_char_lt_256, of c]
      by (simp add: hex4_def backslash_def dquote_def)
  qed
qed

lemma scanstring_encoded:
  "scanstring (concat (map escape_char s) @ dquote # rest) = Some (s, rest)"
  by (induction s) (simp_all add: scanstring_escape_char cons_char_def)

lemma encode_basestring_ascii_eq:
  "encode_basestring_ascii s @ rest = dquote # concat (map escape_char s) @ dquote # rest"
  by (simp add: encode_basestring_ascii_def)

section \<open>JSON text read back\<close>

lemma skip_ws_newline_indent [simp]: "skip_ws (newline_indent l @ s) = skip_ws s"
  unfolding skip_ws_def newline_indent_def
  by (rule dropWhile_append2) (auto simp: is_ws_def)

lemma skip_ws_start: "\<not> is_ws c \<Longrightarrow> skip_ws (c # s) = c # s"
  by (simp add: skip_ws_def)

lemma number_end_newline_indent [simp]: "number_end (newline_indent l @ s)"
  by (simp add: number_end_def newline_indent_def is_digit_def)

lemma number_end_comma [simp]: "number_end (CHR '','' # s)"
  by (simp add: number_end_def is_digit_def)

lemma digit_value_start: "is_digit c \<Longrightarrow> value_start c"
  by (auto simp: is_digit_def value_start_def is_ws_def)

lemma str_nat_start: "\<exists>c cs. str_nat n = c # cs \<and> is_digit c"
  using str_nat_not_Nil [of n] str_nat_digits [of "hd (str_nat n)" n]
  by (cases "str_nat n") auto

lemma str_int_start: "\<exists>c cs. str_int i = c # cs \<and> (is_digit c \<or> c = CHR ''-'')"
  using str_nat_start [of "nat i"] by (auto simp: str_int_def)

lemma iterencode_start: "\<exists>c cs. iterencode v level = c # cs \<and> value_start c"
proof (cases v)
  case (JInt i)
  obtain c cs where "str_int i = c # cs" "is_digit c \<or> c = CHR ''-''"
    using str_int_start by blast
  then show ?thesis
    using JInt digit_value_start [of c] by (auto simp: value_start_def is_ws_def)
next
  case (JList xs)
  then show ?thesis by (cases xs) (simp_all add: value_start_def is_ws_def)
next
  case (JDict kvs)
  then show ?thesis
    by (cases kvs) (auto simp: value_start_def is_ws_def)
qed (simp_all add: value_start_def is_ws_def encode_basestring_ascii_def dquote_def)

lemma skip_ws_iterencode [simp]: "skip_ws (iterencode v level @ s) = iterencode v level @ s"
  using iterencode_start [of v level] by (auto simp: value_start_def skip_ws_start)

lemma hd_iterencode:
  "hd (iterencode v level @ s) \<noteq> CHR '']''" "hd (iterencode v level @ s) \<noteq> CHR ''}''"
  "iterencode v level @ s \<noteq> []"
  using iterencode_start [of v level] by (auto simp: value_start_def)

lemma scans_I:
  assumes "\<And>n rest. length (iterencode v level) \<le> Suc n \<Longrightarrow> number_end rest \<Longrightarrow>
             scan_once (Suc n) (iterencode v level @ rest) = Some (v, rest)"
  shows "scans v level"
  unfolding scans_def
proof (intro allI impI)
  fix n rest
  assume len: "length (iterencode v level) \<le> n" and ne: "number_end rest"
  from iterencode_start [of v level] len obtain m where "n = Suc m"
    by (cases n) auto
  with assms len ne show "scan_once n (iterencode v level @ rest) = Some (v, rest)"
    by simp
qed

lemma scans_JNull: "scans JNull level"
  by (rule scans_I) (simp add: dquote_def)

lemma scans_JBool: "scans (JBool b) level"
  by (rule scans_I) (simp add: dquote_def)

lemma take_Cons_neq: "c \<noteq> d \<Longrightarrow> take (Suc k) (c # s) \<noteq> d # r"
  by simp

lemma scan_once_number:
  assumes "is_digit c \<or> c = CHR ''-''"
  shows "scan_once (Suc n) (c # s) = scan_number (c # s)"
proof -
  from assms have ne: "c \<noteq> dquote" "c \<noteq> CHR ''{''" "c \<noteq> CHR ''[''"
    "c \<noteq> CHR ''n''" "c \<noteq> CHR ''t''" "c \<noteq> CHR ''f''"
    by (auto simp: is_digit_def dquote_def)
  have "take 4 (c # s) \<noteq> ''null''" "take 4 (c # s) \<noteq> ''true''" "take 5 (c # s) \<noteq> ''false''"
    using ne(4-6) by (simp_all add: numeral_eq_Suc)
  with ne(1-3) show ?thesis
    by (simp only: scan_once.simps list.case if_False)
qed

lemma scans_JInt: "scans (JInt i) level"
proof (rule scans_I)
  fix n rest
  assume "number_end rest"
  moreover obtain c cs where "str_int i = c # cs" "is_digit c \<or> c = CHR ''-''"
    using str_int_start by blast
  ultimately show "scan_once (Suc n) (iterencode (JInt i) level @ rest) = Some (JInt i, rest)"
    using scan_once_number [of c n "cs @ rest"] scan_number_str_int [of rest i]
    by simp
qed

lemma scans_JStr: "scans (JStr s) level"
  by (rule scans_I) (simp add: encode_basestring_ascii_def scanstring_encoded)

lemma scans_JList_Nil: "scans (JList []) level"
  by (rule scans_I) (simp add: dquote_def skip_ws_start is_ws_def)

lemma scans_JDict_Nil: "scans (JDict []) level"
  by (rule scans_I) (simp add: dquote_def skip_ws_start is_ws_def)

lemma scan_once_bracket:
  "scan_once (Suc n) (CHR ''['' # t) =
     (if skip_ws t \<noteq> [] \<and> hd (skip_ws t) = CHR '']'' then Some (JList [], tl (skip_ws t))
      else map_option (\<lambda>(values, rest). (JList values, rest)) (parse_array n (skip_ws t)))"
  by (simp add: dquote_def)

lemma scan_once_brace:
  "scan_once (Suc n) (CHR ''{'' # t) =
     (if skip_ws t \<noteq> [] \<and> hd (skip_ws t) = CHR ''}'' then Some (JDict [], tl (skip_ws t))
      else map_option (\<lambda>(pairs, rest). (JDict (dict_of_pairs pairs), rest))
             (parse_object n (skip_ws t)))"
  by (simp add: dquote_def)

lemma scans_JList_Cons:
  assumes "scans x (level + 1)" and "scans_items xs (level + 1)"
  shows "scans (JList (x # xs)) level"
proof (rule scans_I)
  fix n rest
  assume len: "length (iterencode (JList (x # xs)) level) \<le> Suc n"
  let ?items = "iterencode x (level + 1) @ iterencode_list xs (level + 1)
                  @ newline_indent level @ CHR '']'' # rest"
  have fuel: "length (iterencode x (level + 1)) + length (iterencode_list xs (level + 1)) < n"
    using len by (simp add: newline_indent_def)
  have pa: "parse_array n ?items = Some (x # xs, rest)"
    using assms fuel unfolding scans_items_def by blast
  have enc: "iterencode (JList (x # xs)) level @ rest
                   = CHR ''['' # newline_indent (level + 1) @ ?items"
    by simp
  have sk: "skip_ws (newline_indent (level + 1) @ ?items) = ?items"
    by (simp only: skip_ws_newline_indent skip_ws_iterencode)
  have hd: "\<not> (?items \<noteq> [] \<and> hd ?items = CHR '']'')"
    using hd_iterencode(1) [of x "level + 1"] by simp
  show "scan_once (Suc n) (iterencode (JList (x # xs)) level @ rest)
                     = Some (JList (x # xs), rest)"
    by (simp only: enc scan_once_bracket sk hd pa if_False option.map prod.case)
qed

lemma dict_set_new: "k \<notin> fst ` set d \<Longrightarrow> dict_set d k v = d @ [(k, v)]"
  by (induction d) auto

lemma foldl_dict_set:
  "distinct (map fst (d @ pairs)) \<Longrightarrow>
   foldl (\<lambda>d (k, v). dict_set d k v) d pairs = d @ pairs"
proof (induction pairs arbitrary: d)
  case Nil
  then show ?case by simp
next
  case (Cons p pairs)
  obtain k v where p: "p = (k, v)" by (cases p)
  from Cons.prems have "k \<notin> fst ` set d"
    by (auto simp: p)
  then have "dict_set d k v = d @ [(k, v)]"
    by (rule dict_set_new)
  moreover from Cons.prems have "distinct (map fst ((d @ [(k, v)]) @ pairs))"
    by (simp add: p)
  ultimately show ?case
    using Cons.IH [of "d @ [(k, v)]"] by (simp add: p)
qed

lemma dict_of_pairs_distinct: "distinct (map fst pairs) \<Longrightarrow> dict_of_pairs pairs = pairs"
  using foldl_dict_set [of "[]" pairs] by (simp add: dict_of_pairs_def)

lemma scans_JDict_Cons:
  assumes "scans v (level + 1)" and "scans_pairs kvs (level + 1)"
    and "distinct (map fst ((k, v) # kvs))"
  shows "scans (JDict ((k, v) # kvs)) level"
proof (rule scans_I)
  fix n rest
  assume len: "length (iterencode (JDict ((k, v) # kvs)) level) \<le> Suc n"
  let ?pairs = "encode_basestring_ascii k @ '': '' @ iterencode v (level + 1)
                  @ iterencode_dict kvs (level + 1) @ newline_indent level @ CHR ''}'' # rest"
  have fuel: "length (iterencode v (level + 1)) + length (iterencode_dict kvs (level + 1)) < n"
    using len by (simp add: newline_indent_def)
  have po: "parse_object n ?pairs = Some ((k, v) # kvs, rest)"
    using assms(1,2) fuel unfolding scans_pairs_def by blast
  have enc: "iterencode (JDict ((k, v) # kvs)) level @ rest
                   = CHR ''{'' # newline_indent (level + 1) @ ?pairs"
    by simp
  have "skip_ws ?pairs = ?pairs"
    by (simp add: encode_basestring_ascii_def skip_ws_start is_ws_def dquote_def)
  then have sk: "skip_ws (newline_indent (level + 1) @ ?pairs) = ?pairs"
    by (simp only: skip_ws_newline_indent)
  have hd: "\<not> (?pairs \<noteq> [] \<and> hd ?pairs = CHR ''}'')"
    by (simp add: encode_basestring_ascii_def dquote_def)
  show "scan_once (Suc n) (iterencode (JDict ((k, v) # kvs)) level @ rest)
                     = Some (JDict ((k, v) # kvs), rest)"
    by (simp only: enc scan_once_brace sk hd po if_False option.map prod.case
          dict_of_pairs_distinct [OF assms(3)])
qed

lemma skip_ws_bracket [simp]: "skip_ws (CHR '']'' # s) = CHR '']'' # s"
  by (simp add: skip_ws_start is_ws_def)

lemma skip_ws_brace [simp]: "skip_ws (CHR ''}'' # s) = CHR ''}'' # s"
  by (simp add: skip_ws_start is_ws_def)

lemma skip_ws_comma [simp]: "skip_ws (CHR '','' # s) = CHR '','' # s"
  by (simp add: skip_ws_start is_ws_def)

lemma scansD:
  "scans v level \<Longrightarrow> length (iterencode v level) \<le> n \<Longrightarrow> number_end rest \<Longrightarrow>
   scan_once n (iterencode v level @ rest) = Some (v, rest)"
  by (simp add: scans_def)

lemma scans_items_Nil: "scans_items [] level"
  unfolding scans_items_def
proof (intro allI impI)
  fix n x rest l
  assume x: "scans x level"
    and fuel: "length (iterencode x level) + length (iterencode_list [] level) < n"
  then obtain m where n: "n = Suc m" and m: "length (iterencode x level) \<le> m"
    by (cases n) auto
  have "scan_once m (iterencode x level @ newline_indent l @ CHR '']'' # rest)
          = Some (x, newline_indent l @ CHR '']'' # rest)"
    using x m by (rule scansD) simp
  then show "parse_array n (iterencode x level @ iterencode_list [] level
                            @ newline_indent l @ CHR '']'' # rest) = Some ([x], rest)"
    by (simp add: n)
qed

lemma scans_items_Cons:
  assumes y: "scans y level" and ys: "scans_items ys level"
  shows "scans_items (y # ys) level"
  unfolding scans_items_def
proof (intro allI impI)
  fix n x rest l
  assume x: "scans x level"
    and fuel: "length (iterencode x level) + length (iterencode_list (y # ys) level) < n"
  then obtain m where n: "n = Suc m" and m: "length (iterencode x level) \<le> m"
    and m': "length (iterencode y level) + length (iterencode_list ys level) < m"
    by (cases n) (auto simp: newline_indent_def)
  let ?more = "iterencode y level @ iterencode_list ys level @ newline_indent l @ CHR '']'' # rest"
  have "scan_once m (iterencode x level @ CHR '','' # newline_indent level @ ?more)
          = Some (x, CHR '','' # newline_indent level @ ?more)"
    using x m by (rule scansD) simp
  moreover have "parse_array m ?more = Some (y # ys, rest)"
    using ys y m' unfolding scans_items_def by blast
  ultimately show "parse_array n (iterencode x level @ iterencode_list (y # ys) level
                            @ newline_indent l @ CHR '']'' # rest) = Some (x # y # ys, rest)"
    by (simp add: n)
qed

lemma scanstring_key:
  "scanstring (tl (encode_basestring_ascii k) @ s) = Some (k, s)"
  by (simp add: encode_basestring_ascii_def scanstring_encoded)

lemma parse_object_key:
  "parse_object (Suc n) (encode_basestring_ascii k @ CHR '':'' # CHR '' '' # s) =
     (case scan_once n (skip_ws s) of
        None \<Rightarrow> None
      | Some (v, s4) \<Rightarrow>
          (case skip_ws s4 of
             [] \<Rightarrow> None
           | c # t \<Rightarrow>
               if c = CHR ''}'' then Some ([(k, v)], t)
               else if c = CHR '','' then
                 map_option (\<lambda>(pairs, rest). ((k, v) # pairs, rest)) (parse_object n (skip_ws t))
               else None))"
proof -
  have "encode_basestring_ascii k @ CHR '':'' # CHR '' '' # s
          = dquote # concat (map escape_char k) @ dquote # CHR '':'' # CHR '' '' # s"
    by (simp add: encode_basestring_ascii_def)
  moreover have "skip_ws (CHR '':'' # CHR '' '' # s) = CHR '':'' # CHR '' '' # s"
    by (simp add: skip_ws_start is_ws_def)
  moreover have "skip_ws (CHR '' '' # s) = skip_ws s"
    by (simp add: skip_ws_def is_ws_def)
  ultimately show ?thesis
    by (simp add: scanstring_encoded)
qed

lemma scans_pairs_Nil: "scans_pairs [] level"
  unfolding scans_pairs_def
proof (intro allI impI)
  fix n k v rest l
  assume v: "scans v level"
    and fuel: "length (iterencode v level) + length (iterencode_dict [] level) < n"
  then obtain m where n: "n = Suc m" and m: "length (iterencode v level) \<le> m"
    by (cases n) auto
  have "scan_once m (iterencode v level @ newline_indent l @ CHR ''}'' # rest)
          = Some (v, newline_indent l @ CHR ''}'' # rest)"
    using v m by (rule scansD) simp
  then show "parse_object n (encode_basestring_ascii k @ '': '' @ iterencode v level
               @ iterencode_dict [] level @ newline_indent l @ CHR ''}'' # rest)
             = Some ([(k, v)], rest)"
    by (simp add: n parse_object_key del: parse_object.simps)
qed

lemma scans_pairs_Cons:
  assumes v': "scans v' level" and kvs: "scans_pairs kvs level"
  shows "scans_pairs ((k', v') # kvs) level"
  unfolding scans_pairs_def
proof (intro allI impI)
  fix n k v rest l
  assume v: "scans v level"
    and fuel: "length (iterencode v level) + length (iterencode_dict ((k', v') # kvs) level) < n"
  then obtain m where n: "n = Suc m" and m: "length (iterencode v level) \<le> m"
    and m': "length (iterencode v' level) + length (iterencode_dict kvs level) < m"
    by (cases n) (auto simp: newline_indent_def)
  let ?more = "encode_basestring_ascii k' @ '': '' @ iterencode v' level
                 @ iterencode_dict kvs level @ newline_indent l @ CHR ''}'' # rest"
  have "scan_once m (iterencode v level @ CHR '','' # newline_indent level @ ?more)
          = Some (v, CHR '','' # newline_indent level @ ?more)"
    using v m by (rule scansD) simp
  moreover have "parse_object m ?more = Some ((k', v') # kvs, rest)"
    using kvs v' m' unfolding scans_pairs_def by blast
  moreover have "skip_ws ?more = ?more"
    by (simp add: encode_basestring_ascii_def skip_ws_start is_ws_def dquote_def)
  ultimately show "parse_object n (encode_basestring_ascii k @ '': '' @ iterencode v level
               @ iterencode_dict ((k', v') # kvs) level @ newline_indent l @ CHR ''}'' # rest)
             = Some ((k, v) # (k', v') # kvs, rest)"
    by (simp add: n parse_object_key del: parse_object.simps)
qed

lemma scans_all:
  "distinct_keys v \<longrightarrow> scans v level"
  "distinct_keys_list xs \<longrightarrow> scans_items xs level"
  "distinct_keys_dict kvs \<longrightarrow> scans_pairs kvs level"
proof (induction v level and xs level and kvs level
       rule: iterencode_iterencode_list_iterencode_dict.induct)
  case (8 k v kvs level)
  show ?case
  proof
    assume d: "distinct_keys (JDict ((k, v) # kvs))"
    then have "scans v (level + 1)" and "scans_pairs kvs (level + 1)"
      using 8 by simp_all
    moreover from d have "distinct (map fst ((k, v) # kvs))"
      by simp
    ultimately show "scans (JDict ((k, v) # kvs)) level"
      by (rule scans_JDict_Cons)
  qed
qed (auto intro: scans_JNull scans_JBool scans_JInt scans_JStr scans_JList_Nil scans_JDict_Nil
       scans_JList_Cons scans_items_Nil scans_items_Cons scans_pairs_Nil scans_pairs_Cons)

theorem json_loads_dumps:
  assumes "distinct_keys obj"
  shows "json_loads (json_dumps obj) = Some obj"
proof -
  have "scan_once (length (iterencode obj 0)) (iterencode obj 0 @ []) = Some (obj, [])"
    using assms scans_all(1) [of obj 0]
    by (intro scansD) (simp_all add: number_end_def)
  moreover have "skip_ws (iterencode obj 0) = iterencode obj 0"
    using skip_ws_iterencode [of obj 0 "[]"] by simp
  ultimately show ?thesis
    by (simp add: json_loads_def json_dumps_def skip_ws_def)
qed

lemma distinct_keys_table_data: "distinct_keys (json_of_table_data table_data)"
proof -
  have c: "distinct_keys_list (map cell_info_json cs)" for cs
    by (induction cs) (simp_all add: cell_info_json_def)
  have "distinct_keys_list (map table_info_json ts)" for ts
    by (induction ts) (simp_all add: table_info_json_def c)
  then show ?thesis
    by (simp add: json_of_table_data_def)
qed




text \<open>
  The same for a run of \<open>main\<close> with \<open>output_format\<close> \<open>json\<close> that passes
  \<open>validate\<close> and the checks of the page range, over documents with distinct ids: the
  file of a document, read back, is the table data of that document.
\<close>

lemma main_json_round_trip:
  assumes "fst (validate a w) = Inr True"
    and "1 \<le> get_start_page (data a)"
    and "get_start_page (data a) \<le> get_end_page (data a)"
    and "get_output_format (data a) = ''json''"
    and "document \<in> set (get_documents a)"
    and "distinct (map doc_id (get_documents a))"
  shows "json_loads (file_text (snd (main a w)) (output_file_path document ''.json''))
           = Some (json_of_table_data
                     (table_data_of a (get_start_page (data a)) (get_end_page (data a)) document))"
proof -
  obtain w1 where v: "validate a w = (Inr True, w1)"
    using assms(1) by (cases "validate a w") simp
  show ?thesis
    using assms(4,5,6)
    by (simp add: main_valid [OF v assms(2,3)] file_text_def files_process_documents_json
          json_loads_dumps distinct_keys_table_data)
qed



end
